theory Spec2Isabelle
  imports Main
begin

section \<open>Values read from the backend\<close>

text \<open>
  The component reads every response body and every stream message through
  \<^verbatim>\<open>JSON.parse\<close> / \<^verbatim>\<open>response.json()\<close> into a value of TypeScript type \<^verbatim>\<open>any\<close>.
  A parsed value is one of the JSON shapes; \<open>JUndefined\<close> is what reading an absent
  property gives. Numbers are the integers the backend interface declares
  (\<^verbatim>\<open>{processed: int, total: int}\<close>, \<^verbatim>\<open>{progress: int}\<close>); fractions are not modelled.
\<close>

datatype jsval =
    JUndefined
  | JNull
  | JBool bool
  | JNum int
  | JStr string
  | JArr "jsval list"
  | JObj "(string \<times> jsval) list"

text \<open>JavaScript truthiness, as \<^verbatim>\<open>if (data.success)\<close> and \<^verbatim>\<open>data.processed || 0\<close> use it.\<close>

fun truthy :: "jsval \<Rightarrow> bool" where
  "truthy JUndefined = False"
| "truthy JNull = False"
| "truthy (JBool b) = b"
| "truthy (JNum n) = (n \<noteq> 0)"
| "truthy (JStr s) = (s \<noteq> [])"
| "truthy (JArr xs) = True"
| "truthy (JObj kvs) = True"

text \<open>\<^verbatim>\<open>a || b\<close>: the left operand when it is truthy, the right one otherwise.\<close>

definition js_or :: "jsval \<Rightarrow> jsval \<Rightarrow> jsval" where
  "js_or a b = (if truthy a then a else b)"

text \<open>
  \<^verbatim>\<open>data.k\<close> for the property names the component reads (\<^verbatim>\<open>success\<close>, \<^verbatim>\<open>processed\<close>,
  \<^verbatim>\<open>total\<close>, \<^verbatim>\<open>progress\<close>): on \<^verbatim>\<open>null\<close> or \<^verbatim>\<open>undefined\<close> the read throws a TypeError
  (\<open>None\<close>); on an object it gives the property, or \<^verbatim>\<open>undefined\<close> when the object has
  none of that name; on a boolean, number, string or array it gives \<^verbatim>\<open>undefined\<close>.
  \<open>JObj\<close> holds the property table of the parsed object.
\<close>

fun get_prop :: "jsval \<Rightarrow> string \<Rightarrow> jsval option" where
  "get_prop JUndefined k = None"
| "get_prop JNull k = None"
| "get_prop (JObj kvs) k = Some (case map_of kvs k of None \<Rightarrow> JUndefined | Some x \<Rightarrow> x)"
| "get_prop (JBool b) k = Some JUndefined"
| "get_prop (JNum n) k = Some JUndefined"
| "get_prop (JStr s) k = Some JUndefined"
| "get_prop (JArr xs) k = Some JUndefined"

section \<open>Component state\<close>

text \<open>The \<^verbatim>\<open>summary\<close> state: \<^verbatim>\<open>{processed, total} | null\<close>.\<close>

record summary_t =
  processed :: jsval
  total_files :: jsval

text \<open>The notifications the handlers raise through \<^verbatim>\<open>toast\<close>, by title and variant.\<close>

datatype toast =
    FolderSelectedToast
  | SelectErrorToast
  | ProcessingCompleteToast jsval
  | ProcessErrorToast
  | UploadCompleteToast
  | UploadErrorToast
  | ListErrorToast

text \<open>The requests the component sends, in the order it sends them.\<close>

datatype endpoint = SelectFolderEP | ProcessEP | ProgressEP | UploadEP | ReceiptsEP

text \<open>
  One \<^verbatim>\<open>EventSource\<close> object: the handler instance that created it and the number
  of times \<^verbatim>\<open>close()\<close> was called on it. It is open until the first call.
\<close>

record channel =
  opened_by :: nat
  close_calls :: nat

definition is_open :: "channel \<Rightarrow> bool" where
  "is_open c = (close_calls c = 0)"

text \<open>
  An \<^verbatim>\<open>async\<close> handler runs in segments between its \<^verbatim>\<open>await\<close>s. A task is a handler
  instance suspended at an \<^verbatim>\<open>await\<close>; its index in the task list identifies it.
  \<^verbatim>\<open>fetchReceipts\<close> is either called on its own (on mount, on the 100 message) or
  awaited by \<^verbatim>\<open>handleUpload\<close>, which \<^verbatim>\<open>handleFolderSelect\<close> awaits in turn.
\<close>

datatype caller = Standalone | FromUpload

datatype task =
    SelAwaitFetch
  | SelAwaitJson
  | ProcAwaitFetch
  | ProcAwaitJson
  | UploadAwaitFetch
  | UploadAwaitJson
  | ListAwaitFetch caller
  | ListAwaitJson caller
  | Finished

text \<open>
  The two stream-based versions of the component: the one of
  \<^verbatim>\<open>ReceiptProcessor.tsx\<close>, and the one that also keeps a receipts list, uploads
  after a folder selection and downloads the result.
\<close>

datatype variant = Plain | WithList

record state =
  processing :: bool
  progress :: jsval
  summary :: "summary_t option"
  folderSelected :: bool
  receipts :: jsval
  toasts :: "toast list"
  tasks :: "task list"
  channels :: "channel list"
  issued :: "endpoint list"

section \<open>What the environment delivers\<close>

datatype fetch_result = Rejected | Response bool

datatype json_result = ParseError | Body jsval

text \<open>
  A click on one of the two buttons, the settling of a \<^verbatim>\<open>fetch\<close> promise (rejected,
  or a response with its \<^verbatim>\<open>ok\<close> flag), the settling of a \<^verbatim>\<open>response.json()\<close> promise,
  a message on a stream (its text parsed, \<open>None\<close> when \<^verbatim>\<open>JSON.parse\<close> throws), and a
  transport error on a stream.
\<close>

datatype event =
    ClickSelectFolder
  | ClickProcess
  | FetchSettled nat fetch_result
  | JsonSettled nat json_result
  | StreamMessage nat "jsval option"
  | StreamError nat

section \<open>The handlers\<close>

definition set_task :: "nat \<Rightarrow> task \<Rightarrow> state \<Rightarrow> state" where
  "set_task tid t s = s\<lparr>tasks := (tasks s)[tid := t]\<rparr>"

definition add_toast :: "toast \<Rightarrow> state \<Rightarrow> state" where
  "add_toast t s = s\<lparr>toasts := toasts s @ [t]\<rparr>"

subsection \<open>fetchReceipts (list version)\<close>

definition fetchReceipts :: "state \<Rightarrow> state" where
  "fetchReceipts s =
     s\<lparr>tasks := tasks s @ [ListAwaitFetch Standalone], issued := issued s @ [ReceiptsEP]\<rparr>"

text \<open>
  What runs once \<^verbatim>\<open>fetchReceipts\<close> has returned: nothing for a call of its own; for
  the call awaited in \<^verbatim>\<open>handleUpload\<close>, the rest of \<^verbatim>\<open>handleUpload\<close> and then the rest
  of \<^verbatim>\<open>handleFolderSelect\<close>.
\<close>

definition fetchReceipts_return :: "caller \<Rightarrow> nat \<Rightarrow> state \<Rightarrow> state" where
  "fetchReceipts_return k tid s =
     (case k of
        Standalone \<Rightarrow> set_task tid Finished s
      | FromUpload \<Rightarrow>
          set_task tid Finished (add_toast FolderSelectedToast (add_toast UploadCompleteToast s)))"

definition fetchReceipts_response :: "caller \<Rightarrow> nat \<Rightarrow> fetch_result \<Rightarrow> state \<Rightarrow> state" where
  "fetchReceipts_response k tid r s =
     (case r of
        Rejected \<Rightarrow> fetchReceipts_return k tid (add_toast ListErrorToast s)
      | Response ok \<Rightarrow>
          if \<not> ok then fetchReceipts_return k tid (add_toast ListErrorToast s)
          else set_task tid (ListAwaitJson k) s)"

definition fetchReceipts_json :: "caller \<Rightarrow> nat \<Rightarrow> json_result \<Rightarrow> state \<Rightarrow> state" where
  "fetchReceipts_json k tid j s =
     (case j of
        ParseError \<Rightarrow> fetchReceipts_return k tid (add_toast ListErrorToast s)
      | Body d \<Rightarrow> fetchReceipts_return k tid (s\<lparr>receipts := d\<rparr>))"

subsection \<open>handleUpload (list version)\<close>

text \<open>
  \<^verbatim>\<open>handleUpload\<close> catches its own errors, so \<^verbatim>\<open>handleFolderSelect\<close> goes on to its
  "Folder Selected" toast whatever the upload did.
\<close>

definition handleUpload_failed :: "nat \<Rightarrow> state \<Rightarrow> state" where
  "handleUpload_failed tid s =
     set_task tid Finished (add_toast FolderSelectedToast (add_toast UploadErrorToast s))"

definition handleUpload_response :: "nat \<Rightarrow> fetch_result \<Rightarrow> state \<Rightarrow> state" where
  "handleUpload_response tid r s =
     (case r of
        Rejected \<Rightarrow> handleUpload_failed tid s
      | Response ok \<Rightarrow>
          if \<not> ok then handleUpload_failed tid s else set_task tid UploadAwaitJson s)"

definition handleUpload_json :: "nat \<Rightarrow> json_result \<Rightarrow> state \<Rightarrow> state" where
  "handleUpload_json tid j s =
     (case j of
        ParseError \<Rightarrow> handleUpload_failed tid s
      | Body d \<Rightarrow>
          (set_task tid (ListAwaitFetch FromUpload) s)\<lparr>issued := issued s @ [ReceiptsEP]\<rparr>)"

subsection \<open>handleFolderSelect\<close>

definition handleFolderSelect :: "state \<Rightarrow> state" where
  "handleFolderSelect s =
     s\<lparr>tasks := tasks s @ [SelAwaitFetch], issued := issued s @ [SelectFolderEP]\<rparr>"

definition handleFolderSelect_catch :: "nat \<Rightarrow> state \<Rightarrow> state" where
  "handleFolderSelect_catch tid s = set_task tid Finished (add_toast SelectErrorToast s)"

definition handleFolderSelect_response :: "nat \<Rightarrow> fetch_result \<Rightarrow> state \<Rightarrow> state" where
  "handleFolderSelect_response tid r s =
     (case r of
        Rejected \<Rightarrow> handleFolderSelect_catch tid s
      | Response ok \<Rightarrow>
          if \<not> ok then handleFolderSelect_catch tid s else set_task tid SelAwaitJson s)"

definition handleFolderSelect_json :: "variant \<Rightarrow> nat \<Rightarrow> json_result \<Rightarrow> state \<Rightarrow> state" where
  "handleFolderSelect_json v tid j s =
     (case j of
        ParseError \<Rightarrow> handleFolderSelect_catch tid s
      | Body d \<Rightarrow>
          (case get_prop d ''success'' of
             None \<Rightarrow> handleFolderSelect_catch tid s
           | Some b \<Rightarrow>
               if truthy b then
                 (case v of
                    Plain \<Rightarrow>
                      set_task tid Finished
                        (add_toast FolderSelectedToast (s\<lparr>folderSelected := True\<rparr>))
                  | WithList \<Rightarrow>
                      (set_task tid UploadAwaitFetch (s\<lparr>folderSelected := True\<rparr>))
                        \<lparr>issued := issued s @ [UploadEP]\<rparr>)
               else set_task tid Finished s))"

subsection \<open>handleProcess\<close>

definition handleProcess :: "state \<Rightarrow> state" where
  "handleProcess s =
     s\<lparr>processing := True, progress := JNum 0, summary := None,
       tasks := tasks s @ [ProcAwaitFetch], issued := issued s @ [ProcessEP]\<rparr>"

text \<open>The \<^verbatim>\<open>catch\<close> block followed by the \<^verbatim>\<open>finally\<close> block.\<close>

definition handleProcess_catch :: "nat \<Rightarrow> state \<Rightarrow> state" where
  "handleProcess_catch tid s =
     set_task tid Finished ((add_toast ProcessErrorToast s)\<lparr>processing := False\<rparr>)"

text \<open>
  After \<^verbatim>\<open>await fetch\<close>: a response that is not ok throws; otherwise the handler
  creates the \<^verbatim>\<open>EventSource\<close>, installs its two callbacks and awaits the body.
\<close>

definition handleProcess_response :: "nat \<Rightarrow> fetch_result \<Rightarrow> state \<Rightarrow> state" where
  "handleProcess_response tid r s =
     (case r of
        Rejected \<Rightarrow> handleProcess_catch tid s
      | Response ok \<Rightarrow>
          if \<not> ok then handleProcess_catch tid s
          else (set_task tid ProcAwaitJson s)
                 \<lparr>channels := channels s @ [\<lparr>opened_by = tid, close_calls = 0\<rparr>],
                  issued := issued s @ [ProgressEP]\<rparr>)"

text \<open>
  After \<^verbatim>\<open>await response.json()\<close>: the summary is built from \<^verbatim>\<open>data.processed || 0\<close>
  and \<^verbatim>\<open>data.total || 0\<close>, the success toast is raised, and \<^verbatim>\<open>finally\<close> clears the
  flag. A body that does not parse, or that is \<^verbatim>\<open>null\<close>, throws before \<^verbatim>\<open>setSummary\<close>.
\<close>

definition handleProcess_json :: "nat \<Rightarrow> json_result \<Rightarrow> state \<Rightarrow> state" where
  "handleProcess_json tid j s =
     (case j of
        ParseError \<Rightarrow> handleProcess_catch tid s
      | Body d \<Rightarrow>
          (case get_prop d ''processed'' of
             None \<Rightarrow> handleProcess_catch tid s
           | Some p \<Rightarrow>
               (case get_prop d ''total'' of
                  None \<Rightarrow> handleProcess_catch tid s
                | Some t \<Rightarrow>
                    set_task tid Finished
                      ((add_toast (ProcessingCompleteToast p) s)
                         \<lparr>summary := Some \<lparr>processed = js_or p (JNum 0),
                                            total_files = js_or t (JNum 0)\<rparr>,
                          processing := False\<rparr>))))"

subsection \<open>The EventSource callbacks\<close>

definition close_channel :: "nat \<Rightarrow> state \<Rightarrow> state" where
  "close_channel cid s =
     s\<lparr>channels := (channels s)[cid :=
          (channels s ! cid)\<lparr>close_calls := Suc (close_calls (channels s ! cid))\<rparr>]\<rparr>"

text \<open>
  \<^verbatim>\<open>onmessage\<close>: an exception of \<^verbatim>\<open>JSON.parse\<close> or of the property read leaves the
  callback before any state is set. Otherwise the progress is stored as received,
  and on exactly \<^verbatim>\<open>100\<close> the source is closed (the list version then refreshes the
  receipts).
\<close>

definition onmessage :: "variant \<Rightarrow> nat \<Rightarrow> jsval option \<Rightarrow> state \<Rightarrow> state" where
  "onmessage v cid m s =
     (case m of
        None \<Rightarrow> s
      | Some d \<Rightarrow>
          (case get_prop d ''progress'' of
             None \<Rightarrow> s
           | Some p \<Rightarrow>
               if p = JNum 100 then
                 (case v of
                    Plain \<Rightarrow> close_channel cid (s\<lparr>progress := p\<rparr>)
                  | WithList \<Rightarrow> fetchReceipts (close_channel cid (s\<lparr>progress := p\<rparr>)))
               else s\<lparr>progress := p\<rparr>))"

definition onerror :: "nat \<Rightarrow> state \<Rightarrow> state" where
  "onerror cid s = close_channel cid s"

section \<open>The rendered controls and the event loop\<close>

text \<open>\<^verbatim>\<open>disabled={processing}\<close> and \<^verbatim>\<open>disabled={processing || !folderSelected}\<close>.\<close>

definition select_disabled :: "state \<Rightarrow> bool" where
  "select_disabled s = processing s"

definition process_disabled :: "state \<Rightarrow> bool" where
  "process_disabled s = (processing s \<or> \<not> folderSelected s)"

text \<open>
  One turn of the event loop. A disabled button dispatches no click; a promise
  settles only for the task that awaits it; a closed \<^verbatim>\<open>EventSource\<close> dispatches
  nothing.
\<close>

definition fetch_settled :: "variant \<Rightarrow> nat \<Rightarrow> fetch_result \<Rightarrow> state \<Rightarrow> state" where
  "fetch_settled v tid r s =
     (if tid < length (tasks s) then
        (case tasks s ! tid of
           SelAwaitFetch \<Rightarrow> handleFolderSelect_response tid r s
         | ProcAwaitFetch \<Rightarrow> handleProcess_response tid r s
         | UploadAwaitFetch \<Rightarrow> handleUpload_response tid r s
         | ListAwaitFetch k \<Rightarrow> fetchReceipts_response k tid r s
         | _ \<Rightarrow> s)
      else s)"

definition json_settled :: "variant \<Rightarrow> nat \<Rightarrow> json_result \<Rightarrow> state \<Rightarrow> state" where
  "json_settled v tid j s =
     (if tid < length (tasks s) then
        (case tasks s ! tid of
           SelAwaitJson \<Rightarrow> handleFolderSelect_json v tid j s
         | ProcAwaitJson \<Rightarrow> handleProcess_json tid j s
         | UploadAwaitJson \<Rightarrow> handleUpload_json tid j s
         | ListAwaitJson k \<Rightarrow> fetchReceipts_json k tid j s
         | _ \<Rightarrow> s)
      else s)"

fun step :: "variant \<Rightarrow> state \<Rightarrow> event \<Rightarrow> state" where
  "step v s ClickSelectFolder = (if select_disabled s then s else handleFolderSelect s)"
| "step v s ClickProcess = (if process_disabled s then s else handleProcess s)"
| "step v s (FetchSettled tid r) = fetch_settled v tid r s"
| "step v s (JsonSettled tid j) = json_settled v tid j s"
| "step v s (StreamMessage cid m) =
     (if cid < length (channels s) \<and> is_open (channels s ! cid) then onmessage v cid m s
      else s)"
| "step v s (StreamError cid) =
     (if cid < length (channels s) \<and> is_open (channels s ! cid) then onerror cid s else s)"

fun run :: "variant \<Rightarrow> state \<Rightarrow> event list \<Rightarrow> state" where
  "run v s [] = s"
| "run v s (e # es) = run v (step v s e) es"

text \<open>
  The state after mounting: the \<^verbatim>\<open>useState\<close> initial values; the list version's
  \<^verbatim>\<open>useEffect\<close> calls \<^verbatim>\<open>fetchReceipts\<close> once.
\<close>

definition initial :: state where
  "initial = \<lparr>processing = False, progress = JNum 0, summary = None, folderSelected = False,
              receipts = JArr [], toasts = [], tasks = [], channels = [], issued = []\<rparr>"

definition mount :: "variant \<Rightarrow> state" where
  "mount v = (case v of Plain \<Rightarrow> initial | WithList \<Rightarrow> fetchReceipts initial)"

fun stream_event :: "event \<Rightarrow> bool" where
  "stream_event (StreamMessage cid m) = True"
| "stream_event (StreamError cid) = True"
| "stream_event e = False"

text \<open>A stream message carrying \<^verbatim>\<open>{"progress": n}\<close>.\<close>

definition progress_msg :: "nat \<Rightarrow> int \<Rightarrow> event" where
  "progress_msg cid n = StreamMessage cid (Some (JObj [(''progress'', JNum n)]))"

text \<open>The states a trace passes through, one after each event.\<close>

fun visited :: "variant \<Rightarrow> state \<Rightarrow> event list \<Rightarrow> state list" where
  "visited v s [] = []"
| "visited v s (e # es) = step v s e # visited v (step v s e) es"

section \<open>Reference traces\<close>

text \<open>
  Four states of the plain component, each reached from the mounted component by
  the events shown: the folder request answered ok and its body awaited; the
  folder selected (\<^verbatim>\<open>{"success": true}\<close>); a run whose request was answered ok, with
  its stream open and its body awaited; and that run finished with the body
  \<^verbatim>\<open>{"processed": 7, "total": 10}\<close> while its stream never sent 100.
\<close>

definition selecting :: state where
  "selecting = run Plain initial [ClickSelectFolder, FetchSettled 0 (Response True)]"

definition ready :: state where
  "ready = run Plain initial
     [ClickSelectFolder, FetchSettled 0 (Response True),
      JsonSettled 0 (Body (JObj [(''success'', JBool True)]))]"

definition streaming :: state where
  "streaming = run Plain ready [ClickProcess, FetchSettled 1 (Response True)]"

definition after_run :: state where
  "after_run = run Plain ready
     [ClickProcess, FetchSettled 1 (Response True),
      JsonSettled 1 (Body (JObj [(''processed'', JNum 7), (''total'', JNum 10)]))]"

section \<open>Notions used to state the properties\<close>

text \<open>
  The progress value the specification asks for, in its own words: the maximum of
  the values received so far in the run, clamped to the interval from 0 to 100
  (0 before the first value). It is not taken from the component's code; the
  component's own value is the \<open>progress\<close> field of the state.
\<close>

definition spec_progress :: "int list \<Rightarrow> int" where
  "spec_progress ns = (if ns = [] then 0 else min 100 (max 0 (Max (set ns))))"

text \<open>A task of a run in flight: a \<^verbatim>\<open>handleProcess\<close> instance that has not finished.\<close>

definition active :: "task \<Rightarrow> bool" where
  "active t = (t = ProcAwaitFetch \<or> t = ProcAwaitJson)"

text \<open>The handler instances that created the channels, in creation order.\<close>

definition owners :: "state \<Rightarrow> nat list" where
  "owners s = map opened_by (channels s)"

text \<open>
  No two channels have the same creator, and every creator is a task that is past
  its \<^verbatim>\<open>await fetch\<close>.
\<close>

definition owners_ok :: "state \<Rightarrow> bool" where
  "owners_ok s =
     (distinct (owners s)
      \<and> (\<forall>i \<in> set (owners s). i < length (tasks s)
            \<and> (tasks s ! i = ProcAwaitJson \<or> tasks s ! i = Finished)))"

text \<open>The flag \<open>processing\<close> is set exactly while one run is in flight.\<close>

definition one_run :: "state \<Rightarrow> bool" where
  "one_run s = (length (filter active (tasks s)) = (if processing s then 1 else 0))"

section \<open>Basic facts\<close>

lemmas handler_defs =
  set_task_def add_toast_def fetchReceipts_def fetchReceipts_return_def
  fetchReceipts_response_def fetchReceipts_json_def handleUpload_failed_def
  handleUpload_response_def handleUpload_json_def handleFolderSelect_def
  handleFolderSelect_catch_def handleFolderSelect_response_def handleFolderSelect_json_def
  handleProcess_def handleProcess_catch_def handleProcess_response_def handleProcess_json_def
  close_channel_def onmessage_def onerror_def fetch_settled_def json_settled_def
  select_disabled_def process_disabled_def

lemmas all_splits =
  task.splits fetch_result.splits json_result.splits option.splits caller.splits
  variant.splits if_splits

lemma run_append: "run v s (xs @ ys) = run v (run v s xs) ys"
  by (induction xs arbitrary: s) simp_all

lemma visited_append: "visited v s (xs @ ys) = visited v s xs @ visited v (run v s xs) ys"
  by (induction xs arbitrary: s) simp_all

lemma selecting_eq:
  "selecting = \<lparr>processing = False, progress = JNum 0, summary = None, folderSelected = False,
       receipts = JArr [], toasts = [], tasks = [SelAwaitJson], channels = [],
       issued = [SelectFolderEP]\<rparr>"
  by (simp add: selecting_def initial_def handler_defs)

lemma ready_eq:
  "ready = \<lparr>processing = False, progress = JNum 0, summary = None, folderSelected = True,
            receipts = JArr [], toasts = [FolderSelectedToast], tasks = [Finished],
            channels = [], issued = [SelectFolderEP]\<rparr>"
  by (simp add: ready_def initial_def handler_defs)

lemma streaming_eq:
  "streaming = \<lparr>processing = True, progress = JNum 0, summary = None, folderSelected = True,
       receipts = JArr [], toasts = [FolderSelectedToast],
       tasks = [Finished, ProcAwaitJson], channels = [\<lparr>opened_by = 1, close_calls = 0\<rparr>],
       issued = [SelectFolderEP, ProcessEP, ProgressEP]\<rparr>"
  by (simp add: streaming_def ready_eq handler_defs)

lemma after_run_eq:
  "after_run = \<lparr>processing = False, progress = JNum 0,
       summary = Some \<lparr>processed = JNum 7, total_files = JNum 10\<rparr>, folderSelected = True,
       receipts = JArr [], toasts = [FolderSelectedToast, ProcessingCompleteToast (JNum 7)],
       tasks = [Finished, Finished], channels = [\<lparr>opened_by = 1, close_calls = 0\<rparr>],
       issued = [SelectFolderEP, ProcessEP, ProgressEP]\<rparr>"
  by (simp add: after_run_def ready_eq handler_defs js_or_def)

lemma js_or_num: "js_or (JNum n) (JNum 0) = JNum n"
  by (simp add: js_or_def)

subsection \<open>What a stream event leaves alone\<close>

lemma stream_step_frame:
  assumes "stream_event e"
  shows "processing (step v s e) = processing s"
    and "summary (step v s e) = summary s"
    and "folderSelected (step v s e) = folderSelected s"
    and "receipts (step v s e) = receipts s"
    and "toasts (step v s e) = toasts s"
    and "length (channels (step v s e)) = length (channels s)"
  using assms
  by (cases e; cases v; simp add: handler_defs split: option.splits)+

lemma stream_step_only:
  assumes "stream_event e"
  shows "step v s e = s\<lparr>progress := progress (step v s e), channels := channels (step v s e),
                         tasks := tasks (step v s e), issued := issued (step v s e)\<rparr>"
    and "v = Plain \<longrightarrow> tasks (step v s e) = tasks s \<and> issued (step v s e) = issued s"
  using assms
  by (cases e; cases v; simp add: handler_defs split: option.splits)+

lemma stream_step_tasks:
  assumes "stream_event e"
  shows "\<exists>ts. tasks (step v s e) = tasks s @ ts"
  using assms
  by (cases e; cases v; simp add: handler_defs split: option.splits)

lemma stream_step_task_at:
  assumes "stream_event e" and "tid < length (tasks s)"
  shows "tid < length (tasks (step v s e)) \<and> tasks (step v s e) ! tid = tasks s ! tid"
proof -
  from stream_step_tasks [OF assms(1)] obtain ts where "tasks (step v s e) = tasks s @ ts"
    by blast
  with assms(2) show ?thesis by (simp add: nth_append)
qed

lemma stream_run_frame:
  assumes "list_all stream_event es"
  shows "processing (run v s es) = processing s \<and> summary (run v s es) = summary s
       \<and> folderSelected (run v s es) = folderSelected s \<and> toasts (run v s es) = toasts s
       \<and> receipts (run v s es) = receipts s
       \<and> length (channels (run v s es)) = length (channels s)"
  using assms
  by (induction es arbitrary: s) (simp_all add: stream_step_frame)

lemma stream_run_task_at:
  assumes "list_all stream_event es" and "tid < length (tasks s)"
  shows "tid < length (tasks (run v s es)) \<and> tasks (run v s es) ! tid = tasks s ! tid"
  using assms
proof (induction es arbitrary: s)
  case Nil
  then show ?case by simp
next
  case (Cons e es)
  then have e: "stream_event e" and es: "list_all stream_event es" by simp_all
  from stream_step_task_at [OF e Cons.prems(2)]
  have "tid < length (tasks (step v s e))" and eq: "tasks (step v s e) ! tid = tasks s ! tid"
    by simp_all
  from Cons.IH [OF es this(1)] eq show ?case by simp
qed

lemma stream_visited_frame:
  assumes "list_all stream_event es"
  shows "list_all (\<lambda>s'. summary s' = summary s \<and> processing s' = processing s)
           (visited v s es)"
  using assms
proof (induction es arbitrary: s)
  case Nil
  then show ?case by simp
next
  case (Cons e es)
  then have e: "stream_event e" and es: "list_all stream_event es" by simp_all
  from stream_step_frame(1,2) [OF e, of v s]
  have same: "processing (step v s e) = processing s" "summary (step v s e) = summary s" .
  from Cons.IH [OF es, of "step v s e"] same show ?case by simp
qed

subsection \<open>The segments of handleProcess\<close>

lemma proc_fetch_ok:
  assumes "tid < length (tasks s)" and "tasks s ! tid = ProcAwaitFetch"
  shows "fetch_settled v tid (Response True) s =
           (set_task tid ProcAwaitJson s)
             \<lparr>channels := channels s @ [\<lparr>opened_by = tid, close_calls = 0\<rparr>],
              issued := issued s @ [ProgressEP]\<rparr>"
  using assms by (simp add: fetch_settled_def handleProcess_response_def)

lemma proc_fetch_fail:
  assumes "tid < length (tasks s)" and "tasks s ! tid = ProcAwaitFetch" and "r \<noteq> Response True"
  shows "fetch_settled v tid r s = handleProcess_catch tid s"
  using assms
  by (cases r) (simp_all add: fetch_settled_def handleProcess_response_def)

lemma proc_json_body:
  assumes "tid < length (tasks s)" and "tasks s ! tid = ProcAwaitJson"
    and "get_prop d ''processed'' = Some p" and "get_prop d ''total'' = Some t"
  shows "json_settled v tid (Body d) s =
           set_task tid Finished
             ((add_toast (ProcessingCompleteToast p) s)
                \<lparr>summary := Some \<lparr>processed = js_or p (JNum 0), total_files = js_or t (JNum 0)\<rparr>,
                 processing := False\<rparr>)"
  using assms by (simp add: json_settled_def handleProcess_json_def)

lemma get_prop_None: "(get_prop d k = None) = (d = JUndefined \<or> d = JNull)"
  by (cases d) simp_all

lemma proc_json_unreadable:
  assumes "tid < length (tasks s)" and "tasks s ! tid = ProcAwaitJson"
    and "get_prop d ''processed'' = None"
  shows "json_settled v tid (Body d) s = handleProcess_catch tid s"
  using assms by (simp add: json_settled_def handleProcess_json_def)

lemma processing_cleared_by:
  assumes "processing s" and "\<not> processing (step v s e)"
  shows "(\<exists>tid r. e = FetchSettled tid r \<and> tid < length (tasks s)
             \<and> tasks s ! tid = ProcAwaitFetch \<and> r \<noteq> Response True)
       \<or> (\<exists>tid j. e = JsonSettled tid j \<and> tid < length (tasks s)
             \<and> tasks s ! tid = ProcAwaitJson)"
proof (cases e)
  case (FetchSettled tid r)
  with assms show ?thesis
    by (auto simp: handler_defs split: all_splits)
next
  case (JsonSettled tid j)
  with assms show ?thesis
    by (auto simp: handler_defs split: all_splits)
qed (use assms in \<open>auto simp: handler_defs split: all_splits\<close>)

subsection \<open>The folder flag\<close>

lemma folderSelected_mono: "folderSelected s \<Longrightarrow> folderSelected (step v s e)"
  by (cases e) (auto simp: handler_defs split: all_splits)

lemma folderSelected_run: "folderSelected s \<Longrightarrow> folderSelected (run v s es)"
  by (induction es arbitrary: s) (simp_all add: folderSelected_mono)

lemma folderSelected_set_by:
  assumes "\<not> folderSelected s" and "folderSelected (step v s e)"
  shows "\<exists>tid d b. e = JsonSettled tid (Body d) \<and> tid < length (tasks s)
           \<and> tasks s ! tid = SelAwaitJson \<and> get_prop d ''success'' = Some b \<and> truthy b"
  using assms
  by (cases e) (auto simp: handler_defs split: all_splits)

lemma select_error_only_by:
  "(toasts (step v s e) = toasts s @ [SelectErrorToast])
     = ((\<exists>tid r. e = FetchSettled tid r \<and> tid < length (tasks s)
            \<and> tasks s ! tid = SelAwaitFetch \<and> r \<noteq> Response True)
        \<or> (\<exists>tid j. e = JsonSettled tid j \<and> tid < length (tasks s)
            \<and> tasks s ! tid = SelAwaitJson
            \<and> (j = ParseError \<or> (\<exists>d. j = Body d \<and> get_prop d ''success'' = None))))"
proof (cases e)
  case (FetchSettled tid r)
  show ?thesis
  proof (cases "tid < length (tasks s)")
    case True
    then show ?thesis
      unfolding FetchSettled step.simps
      by (cases "tasks s ! tid"; cases r) (auto simp: handler_defs split: caller.splits)
  next
    case False
    then show ?thesis by (simp add: FetchSettled fetch_settled_def)
  qed
next
  case (JsonSettled tid j)
  show ?thesis
  proof (cases "tid < length (tasks s)")
    case True
    then show ?thesis
      unfolding JsonSettled step.simps
      by (cases "tasks s ! tid"; cases j; cases v)
         (auto simp: handler_defs split: caller.splits option.splits)
  next
    case False
    then show ?thesis by (simp add: JsonSettled json_settled_def)
  qed
qed (simp_all add: stream_step_frame(5) handleProcess_def handleFolderSelect_def
       del: step.simps, simp_all add: handleProcess_def handleFolderSelect_def)

subsection \<open>Progress messages\<close>

lemma progress_msg_progress:
  assumes "cid < length (channels s)" and "is_open (channels s ! cid)"
  shows "progress (step v s (progress_msg cid n)) = JNum n"
  using assms
  by (cases v) (simp_all add: progress_msg_def onmessage_def close_channel_def fetchReceipts_def)

lemma progress_msg_keeps_open:
  assumes "cid < length (channels s)" and "is_open (channels s ! cid)" and "n \<noteq> 100"
  shows "channels (step v s (progress_msg cid n)) = channels s"
  using assms
  by (simp add: progress_msg_def onmessage_def)

lemma progress_msgs_latest:
  assumes "cid < length (channels s)" and "is_open (channels s ! cid)"
    and "ns \<noteq> []" and "100 \<notin> set (butlast ns)"
  shows "progress (run v s (map (progress_msg cid) ns)) = JNum (last ns)"
  using assms
proof (induction ns arbitrary: s)
  case Nil
  then show ?case by simp
next
  case (Cons n ns)
  show ?case
  proof (cases "ns = []")
    case True
    with Cons.prems show ?thesis
      by (simp add: progress_msg_progress del: step.simps)
  next
    case False
    with Cons.prems have n: "n \<noteq> 100" and rest: "100 \<notin> set (butlast ns)" by auto
    from progress_msg_keeps_open [OF Cons.prems(1,2) n, of v]
    have ch: "channels (step v s (progress_msg cid n)) = channels s" .
    have "progress (run v (step v s (progress_msg cid n)) (map (progress_msg cid) ns))
            = JNum (last ns)"
      using Cons.IH [of "step v s (progress_msg cid n)"] Cons.prems(1,2) False rest ch
      by simp
    with False show ?thesis by simp
  qed
qed

subsection \<open>Channels\<close>

lemma fetch_settled_channels: "\<exists>cs. channels (fetch_settled v tid r s) = channels s @ cs"
proof (cases "tid < length (tasks s)")
  case True
  then show ?thesis
    by (cases "tasks s ! tid"; cases r) (auto simp: handler_defs split: caller.splits)
next
  case False
  then show ?thesis by (simp add: fetch_settled_def)
qed

lemma json_settled_channels: "channels (json_settled v tid j s) = channels s"
proof (cases "tid < length (tasks s)")
  case True
  then show ?thesis
    by (cases "tasks s ! tid"; cases j; cases v)
       (auto simp: handler_defs split: caller.splits option.splits)
next
  case False
  then show ?thesis by (simp add: json_settled_def)
qed

lemma channels_grow_only_on_ok:
  "(length (channels (step v s e)) \<noteq> length (channels s))
     = (\<exists>tid. e = FetchSettled tid (Response True) \<and> tid < length (tasks s)
           \<and> tasks s ! tid = ProcAwaitFetch)"
proof (cases e)
  case (FetchSettled tid r)
  show ?thesis
  proof (cases "tid < length (tasks s)")
    case True
    then show ?thesis
      unfolding FetchSettled step.simps
      by (cases "tasks s ! tid"; cases r)
         (auto simp: handler_defs split: caller.splits)
  next
    case False
    then show ?thesis by (simp add: FetchSettled fetch_settled_def)
  qed
next
  case (JsonSettled tid j)
  then show ?thesis by (simp add: json_settled_channels)
qed (simp_all add: stream_step_frame(6) handleProcess_def handleFolderSelect_def
       del: step.simps, simp_all add: handleProcess_def handleFolderSelect_def)

lemma channel_changed_by:
  assumes "cid < length (channels s)"
  shows "cid < length (channels (step v s e))
       \<and> (channels (step v s e) ! cid \<noteq> channels s ! cid \<longrightarrow>
            is_open (channels s ! cid)
          \<and> (e = StreamError cid
              \<or> (\<exists>d. e = StreamMessage cid (Some d)
                    \<and> get_prop d ''progress'' = Some (JNum 100))))"
proof (cases e)
  case ClickSelectFolder
  with assms show ?thesis by (simp add: handler_defs)
next
  case ClickProcess
  with assms show ?thesis by (simp add: handler_defs)
next
  case (FetchSettled tid r)
  from fetch_settled_channels [of v tid r s] obtain cs
    where "channels (fetch_settled v tid r s) = channels s @ cs" ..
  with assms FetchSettled show ?thesis by (simp add: nth_append)
next
  case (JsonSettled tid j)
  with assms json_settled_channels [of v tid j s] show ?thesis by simp
next
  case (StreamMessage c m)
  show ?thesis
  proof (cases "c = cid")
    case True
    with assms StreamMessage show ?thesis
      by (cases v) (auto simp: handler_defs split: option.splits)
  next
    case False
    with assms StreamMessage show ?thesis
      by (cases v) (auto simp: handler_defs split: option.splits)
  qed
next
  case (StreamError c)
  with assms show ?thesis
    by (cases "c = cid") (auto simp: handler_defs)
qed

lemma closed_channel_step:
  assumes "cid < length (channels s)" and "\<not> is_open (channels s ! cid)"
  shows "cid < length (channels (step v s e)) \<and> channels (step v s e) ! cid = channels s ! cid"
  using channel_changed_by [OF assms(1), of v e] assms(2) by blast

lemma closed_channel_run:
  assumes "cid < length (channels s)" and "\<not> is_open (channels s ! cid)"
  shows "cid < length (channels (run v s es)) \<and> channels (run v s es) ! cid = channels s ! cid"
  using assms
proof (induction es arbitrary: s)
  case Nil
  then show ?case by simp
next
  case (Cons e es)
  from closed_channel_step [OF Cons.prems, of v e]
  have 1: "cid < length (channels (step v s e))"
    and 2: "channels (step v s e) ! cid = channels s ! cid" by simp_all
  from Cons.IH [OF 1] 2 Cons.prems(2) show ?case by simp
qed

subsection \<open>One run at a time, one channel per run\<close>

lemma filter_update_count:
  "i < length xs \<Longrightarrow>
     length (filter P (xs[i := y])) + (if P (xs ! i) then 1 else 0)
       = length (filter P xs) + (if P y then 1 else 0)"
proof (induction xs arbitrary: i)
  case Nil
  then show ?case by simp
next
  case (Cons x xs)
  show ?case
  proof (cases i)
    case 0
    then show ?thesis by simp
  next
    case (Suc j)
    with Cons.prems have "j < length xs" by simp
    from Cons.IH [OF this] Suc show ?thesis by simp
  qed
qed


lemma count_update_same:
  assumes "i < length xs" and "P (xs ! i) = P y"
  shows "length (filter P (xs[i := y])) = length (filter P xs)"
  using filter_update_count [OF assms(1), of P y] assms(2) by simp

lemma count_update_drop:
  assumes "i < length xs" and "P (xs ! i)" and "\<not> P y"
  shows "Suc (length (filter P (xs[i := y]))) = length (filter P xs)"
  using filter_update_count [OF assms(1), of P y] assms(2,3) by simp

lemma one_run_set_task_same:
  assumes "tid < length (tasks s)" and "active (tasks s ! tid) = active t"
  shows "length (filter active (tasks (set_task tid t s))) = length (filter active (tasks s))"
  using assms by (simp add: set_task_def count_update_same)

lemma one_run_fetch:
  assumes "one_run s" and "tid < length (tasks s)"
  shows "one_run (fetch_settled v tid r s)"
proof (cases "tasks s ! tid = ProcAwaitFetch \<and> r \<noteq> Response True")
  case True
  then have eq: "fetch_settled v tid r s = handleProcess_catch tid s"
    using assms(2) by (cases r) (simp_all add: fetch_settled_def handleProcess_response_def)
  have "active (tasks s ! tid)" using True by (simp add: active_def)
  from count_update_drop [OF assms(2), of active Finished, OF this]
  have "Suc (length (filter active ((tasks s)[tid := Finished]))) = length (filter active (tasks s))"
    by (simp add: active_def)
  with assms(1) show ?thesis
    by (simp add: eq one_run_def handleProcess_catch_def set_task_def add_toast_def
        split: if_splits)
next
  case False
  have same: "\<And>t. active (tasks s ! tid) = active t \<Longrightarrow>
      length (filter active ((tasks s)[tid := t])) = length (filter active (tasks s))"
    using count_update_same [OF assms(2), of active] by simp
  show ?thesis
  proof (cases "tasks s ! tid")
    case SelAwaitFetch
    with assms same [of Finished] same [of SelAwaitJson] show ?thesis
      by (cases r) (auto simp: one_run_def handler_defs active_def split: if_splits)
  next
    case ProcAwaitFetch
    with False have "r = Response True" by simp
    with assms ProcAwaitFetch same [of ProcAwaitJson] show ?thesis
      by (auto simp: one_run_def handler_defs active_def split: if_splits)
  next
    case UploadAwaitFetch
    with assms same [of Finished] same [of UploadAwaitJson] show ?thesis
      by (cases r) (auto simp: one_run_def handler_defs active_def split: if_splits)
  next
    case (ListAwaitFetch k)
    with assms same [of Finished] same [of "ListAwaitJson k"] show ?thesis
      by (cases r; cases k) (auto simp: one_run_def handler_defs active_def split: if_splits)
  qed (use assms in \<open>simp_all add: fetch_settled_def\<close>)
qed

lemma one_run_json:
  assumes "one_run s" and "tid < length (tasks s)"
  shows "one_run (json_settled v tid j s)"
proof (cases "tasks s ! tid")
  case SelAwaitJson
  have same: "\<And>t. \<not> active t \<Longrightarrow>
      length (filter active ((tasks s)[tid := t])) = length (filter active (tasks s))"
    using count_update_same [OF assms(2), of active] SelAwaitJson by (simp add: active_def)
  from assms SelAwaitJson same [of Finished] same [of UploadAwaitFetch] show ?thesis
    by (cases j; cases v)
       (auto simp: one_run_def handler_defs active_def split: option.splits if_splits)
next
  case ProcAwaitJson
  then have "active (tasks s ! tid)" by (simp add: active_def)
  from count_update_drop [OF assms(2), of active Finished, OF this]
  have "Suc (length (filter active ((tasks s)[tid := Finished]))) = length (filter active (tasks s))"
    by (simp add: active_def)
  with assms ProcAwaitJson show ?thesis
    by (cases j)
       (auto simp: one_run_def handler_defs split: option.splits if_splits)
next
  case UploadAwaitJson
  have same: "\<And>t. \<not> active t \<Longrightarrow>
      length (filter active ((tasks s)[tid := t])) = length (filter active (tasks s))"
    using count_update_same [OF assms(2), of active] UploadAwaitJson by (simp add: active_def)
  from assms UploadAwaitJson same [of Finished] same [of "ListAwaitFetch FromUpload"]
  show ?thesis
    by (cases j) (auto simp: one_run_def handler_defs active_def split: if_splits)
next
  case (ListAwaitJson k)
  have same: "\<And>t. \<not> active t \<Longrightarrow>
      length (filter active ((tasks s)[tid := t])) = length (filter active (tasks s))"
    using count_update_same [OF assms(2), of active] ListAwaitJson by (simp add: active_def)
  from assms ListAwaitJson same [of Finished] show ?thesis
    by (cases j; cases k) (auto simp: one_run_def handler_defs active_def split: if_splits)
qed (use assms in \<open>simp_all add: json_settled_def\<close>)

lemma one_run_step: "one_run s \<Longrightarrow> one_run (step v s e)"
proof (cases e)
  case ClickSelectFolder
  assume "one_run s"
  with ClickSelectFolder show ?thesis
    by (auto simp: one_run_def handler_defs active_def split: if_splits)
next
  case ClickProcess
  assume "one_run s"
  with ClickProcess show ?thesis
    by (auto simp: one_run_def handler_defs active_def split: if_splits)
next
  case (FetchSettled tid r)
  assume a: "one_run s"
  show ?thesis
  proof (cases "tid < length (tasks s)")
    case True
    with a FetchSettled show ?thesis by (simp add: one_run_fetch)
  next
    case False
    with a FetchSettled show ?thesis by (simp add: fetch_settled_def)
  qed
next
  case (JsonSettled tid j)
  assume a: "one_run s"
  show ?thesis
  proof (cases "tid < length (tasks s)")
    case True
    with a JsonSettled show ?thesis by (simp add: one_run_json)
  next
    case False
    with a JsonSettled show ?thesis by (simp add: json_settled_def)
  qed
next
  case (StreamMessage cid m)
  assume "one_run s"
  with StreamMessage show ?thesis
    by (auto simp: one_run_def handler_defs active_def split: all_splits)
next
  case (StreamError cid)
  assume "one_run s"
  with StreamError show ?thesis
    by (auto simp: one_run_def handler_defs active_def split: all_splits)
qed

lemma owners_close_channel:
  "cid < length (channels s) \<Longrightarrow> owners (close_channel cid s) = owners s"
  by (simp add: owners_def close_channel_def map_update list_update_same_conv)

lemma owners_ok_cong:
  assumes "owners_ok s" and "owners s' = owners s"
    and "\<exists>ts. tasks s' = tasks s @ ts"
  shows "owners_ok s'"
  using assms by (auto simp: owners_ok_def nth_append)

lemma owners_ok_set_task:
  assumes "owners_ok s" and "tid < length (tasks s)"
    and "owners s' = owners s" and "tasks s' = (tasks s)[tid := t]"
    and "t = Finished \<or> t = ProcAwaitJson
           \<or> (tasks s ! tid \<noteq> ProcAwaitJson \<and> tasks s ! tid \<noteq> Finished)"
  shows "owners_ok s'"
  using assms by (auto simp: owners_ok_def nth_list_update)

lemma owners_ok_open:
  assumes "owners_ok s" and "tid < length (tasks s)" and "tasks s ! tid = ProcAwaitFetch"
    and "owners s' = owners s @ [tid]" and "tasks s' = (tasks s)[tid := ProcAwaitJson]"
  shows "owners_ok s'"
  using assms by (auto simp: owners_ok_def nth_list_update)

lemma fetch_settled_shape:
  assumes "tid < length (tasks s)"
  shows "(tasks s ! tid = ProcAwaitFetch
            \<and> owners (fetch_settled v tid r s) = owners s @ [tid]
            \<and> tasks (fetch_settled v tid r s) = (tasks s)[tid := ProcAwaitJson])
       \<or> (owners (fetch_settled v tid r s) = owners s
            \<and> (\<exists>t. tasks (fetch_settled v tid r s) = (tasks s)[tid := t]
                  \<and> (t = Finished \<or> t = ProcAwaitJson
                      \<or> (tasks s ! tid \<noteq> ProcAwaitJson \<and> tasks s ! tid \<noteq> Finished))))"
proof (cases "tasks s ! tid")
  case SelAwaitFetch
  with assms show ?thesis
    by (cases r) (auto simp: handler_defs owners_def)
next
  case ProcAwaitFetch
  with assms show ?thesis
    by (cases r) (auto simp: handler_defs owners_def)
next
  case UploadAwaitFetch
  with assms show ?thesis
    by (cases r) (auto simp: handler_defs owners_def)
next
  case (ListAwaitFetch k)
  with assms show ?thesis
    by (cases r; cases k) (auto simp: handler_defs owners_def)
next
  case Finished
  with assms have "fetch_settled v tid r s = s" by (simp add: fetch_settled_def)
  moreover have "tasks s = (tasks s)[tid := Finished]"
    using Finished list_update_id [of "tasks s" tid] by simp
  ultimately show ?thesis by auto
qed (use assms list_update_id [of "tasks s" tid] in
      \<open>auto simp: fetch_settled_def intro: exI [of _ "tasks s ! tid"]\<close>)

lemma json_settled_shape:
  assumes "tid < length (tasks s)"
  shows "owners (json_settled v tid j s) = owners s
       \<and> (\<exists>t. tasks (json_settled v tid j s) = (tasks s)[tid := t]
             \<and> (t = Finished \<or> t = ProcAwaitJson
                 \<or> (tasks s ! tid \<noteq> ProcAwaitJson \<and> tasks s ! tid \<noteq> Finished)))"
proof (cases "tasks s ! tid")
  case SelAwaitJson
  with assms show ?thesis
    by (cases j; cases v) (auto simp: handler_defs owners_def split: option.splits)
next
  case ProcAwaitJson
  with assms show ?thesis
    by (cases j) (auto simp: handler_defs owners_def split: option.splits)
next
  case UploadAwaitJson
  with assms show ?thesis
    by (cases j) (auto simp: handler_defs owners_def)
next
  case (ListAwaitJson k)
  with assms show ?thesis
    by (cases j; cases k) (auto simp: handler_defs owners_def)
next
  case Finished
  with assms have "json_settled v tid j s = s" by (simp add: json_settled_def)
  moreover have "tasks s = (tasks s)[tid := Finished]"
    using Finished list_update_id [of "tasks s" tid] by simp
  ultimately show ?thesis by auto
qed (use assms list_update_id [of "tasks s" tid] in
      \<open>auto simp: json_settled_def intro: exI [of _ "tasks s ! tid"]\<close>)

lemma owners_stream:
  assumes "stream_event e"
  shows "owners (step v s e) = owners s"
proof (cases e)
  case (StreamMessage cid m)
  show ?thesis
  proof (cases "cid < length (channels s) \<and> is_open (channels s ! cid)")
    case True
    have "\<And>p. owners (close_channel cid (s\<lparr>progress := p\<rparr>)) = owners s"
      using owners_close_channel [of cid "s\<lparr>progress := p\<rparr>" for p] True
      by (simp add: owners_def)
    moreover have "\<And>t. owners (fetchReceipts t) = owners t"
      by (simp add: owners_def fetchReceipts_def)
    moreover have "\<And>p. owners (s\<lparr>progress := p\<rparr>) = owners s"
      by (simp add: owners_def)
    ultimately show ?thesis
      using True StreamMessage
      by (cases v) (simp_all add: onmessage_def split: option.splits)
  next
    case False
    with StreamMessage show ?thesis by auto
  qed
next
  case (StreamError cid)
  then show ?thesis
    by (simp add: onerror_def owners_close_channel)
qed (use assms in simp_all)

lemma owners_ok_step: "owners_ok s \<Longrightarrow> owners_ok (step v s e)"
proof (cases e)
  case ClickSelectFolder
  assume "owners_ok s"
  then show ?thesis
    by (rule owners_ok_cong) (simp_all add: ClickSelectFolder handler_defs owners_def)
next
  case ClickProcess
  assume "owners_ok s"
  then show ?thesis
    by (rule owners_ok_cong) (simp_all add: ClickProcess handler_defs owners_def)
next
  case (FetchSettled tid r)
  assume a: "owners_ok s"
  show ?thesis
  proof (cases "tid < length (tasks s)")
    case True
    have "owners_ok (fetch_settled v tid r s)"
      using fetch_settled_shape [OF True, of v r]
        owners_ok_open [OF a True, of "fetch_settled v tid r s"]
        owners_ok_set_task [OF a True, of "fetch_settled v tid r s"]
      by blast
    with FetchSettled show ?thesis by simp
  next
    case False
    with a FetchSettled show ?thesis by (simp add: fetch_settled_def)
  qed
next
  case (JsonSettled tid j)
  assume a: "owners_ok s"
  show ?thesis
  proof (cases "tid < length (tasks s)")
    case True
    have "owners_ok (json_settled v tid j s)"
      using json_settled_shape [OF True, of v j]
        owners_ok_set_task [OF a True, of "json_settled v tid j s"]
      by blast
    with JsonSettled show ?thesis by simp
  next
    case False
    with a JsonSettled show ?thesis by (simp add: json_settled_def)
  qed
next
  case (StreamMessage cid m)
  assume "owners_ok s"
  then show ?thesis
    by (rule owners_ok_cong)
       (simp_all add: StreamMessage owners_stream stream_step_tasks del: step.simps)
next
  case (StreamError cid)
  assume "owners_ok s"
  then show ?thesis
    by (rule owners_ok_cong)
       (simp_all add: StreamError owners_stream stream_step_tasks del: step.simps)
qed

lemma invariants_run:
  assumes "one_run s" and "owners_ok s"
  shows "one_run (run v s es) \<and> owners_ok (run v s es)"
  using assms
  by (induction es arbitrary: s) (simp_all add: one_run_step owners_ok_step)

lemma invariants_mount: "one_run (mount v) \<and> owners_ok (mount v)"
  by (cases v)
     (simp_all add: mount_def initial_def fetchReceipts_def one_run_def owners_ok_def
        owners_def active_def)

section \<open>The summary of a run\<close>

text \<open>
  A body that parses but has no \<^verbatim>\<open>processed\<close> and no \<^verbatim>\<open>total\<close> gives the summary
  0 / 0; a \<^verbatim>\<open>null\<close> field is shown as 0; a body that parses to \<^verbatim>\<open>null\<close> gives no
  summary at all and the error notification.
\<close>

theorem C1_counterexample:
  "get_prop (JObj []) ''processed'' = Some JUndefined
   \<and> get_prop (JObj []) ''total'' = Some JUndefined
   \<and> summary (run Plain ready
        [ClickProcess, FetchSettled 1 (Response True), JsonSettled 1 (Body (JObj []))])
       = Some \<lparr>processed = JNum 0, total_files = JNum 0\<rparr>
   \<and> get_prop (JObj [(''processed'', JNull), (''total'', JNum 3)]) ''processed'' = Some JNull
   \<and> summary (run Plain ready
        [ClickProcess, FetchSettled 1 (Response True),
         JsonSettled 1 (Body (JObj [(''processed'', JNull), (''total'', JNum 3)]))])
       = Some \<lparr>processed = JNum 0, total_files = JNum 3\<rparr>
   \<and> summary (run Plain ready
        [ClickProcess, FetchSettled 1 (Response True), JsonSettled 1 (Body JNull)]) = None
   \<and> toasts (run Plain ready
        [ClickProcess, FetchSettled 1 (Response True), JsonSettled 1 (Body JNull)])
       = [FolderSelectedToast, ProcessErrorToast]"
  by (simp add: ready_eq handler_defs js_or_def)

text \<open>
  C1, as the component has it. A run is started from a state in which the process
  button is enabled, and its request is answered with an ok response whose body
  parses to \<open>d\<close>. Whatever stream messages and stream errors arrive before the
  response, between the response and its body, and after the body (\<open>pre\<close>, \<open>mid\<close>,
  \<open>post\<close>, on any channel, with any content), the state at the end is as follows.
  When \<open>d\<close> is not \<^verbatim>\<open>null\<close>, the summary is \<^verbatim>\<open>data.processed || 0\<close> and
  \<^verbatim>\<open>data.total || 0\<close>: each field of the response as it is when it is truthy, and 0
  when it is missing or falsy. In particular, when both fields are integers the
  summary is exactly those two integers. When \<open>d\<close> is \<^verbatim>\<open>null\<close>, no summary is set and
  the error notification is raised. In every case the processing flag is false.
\<close>

theorem C1_summary_from_response:
  assumes "\<not> process_disabled s"
    and "list_all stream_event pre"
    and "list_all stream_event mid"
    and "list_all stream_event post"
  shows "(let s' = run v s (ClickProcess # pre
                     @ [FetchSettled (length (tasks s)) (Response True)] @ mid
                     @ [JsonSettled (length (tasks s)) (Body d)] @ post)
          in summary s' =
               (case get_prop d ''processed'' of
                  None \<Rightarrow> None
                | Some p \<Rightarrow>
                    (case get_prop d ''total'' of
                       None \<Rightarrow> None
                     | Some t \<Rightarrow> Some \<lparr>processed = js_or p (JNum 0),
                                        total_files = js_or t (JNum 0)\<rparr>))
           \<and> (get_prop d ''processed'' = Some (JNum p) \<and> get_prop d ''total'' = Some (JNum t) \<longrightarrow>
                 summary s' = Some \<lparr>processed = JNum p, total_files = JNum t\<rparr>)
           \<and> (get_prop d ''processed'' = None \<longrightarrow>
                 summary s' = None \<and> toasts s' = toasts s @ [ProcessErrorToast])
           \<and> \<not> processing s')"
proof -
  let ?tid = "length (tasks s)"
  define s1 where "s1 = step v s ClickProcess"
  define s2 where "s2 = run v s1 pre"
  define s3 where "s3 = step v s2 (FetchSettled ?tid (Response True))"
  define s4 where "s4 = run v s3 mid"
  define s5 where "s5 = step v s4 (JsonSettled ?tid (Body d))"
  define s6 where "s6 = run v s5 post"
  have s6: "run v s (ClickProcess # pre @ [FetchSettled ?tid (Response True)] @ mid
              @ [JsonSettled ?tid (Body d)] @ post) = s6"
    by (simp add: run_append s1_def s2_def s3_def s4_def s5_def s6_def)
  have t1: "?tid < length (tasks s1) \<and> tasks s1 ! ?tid = ProcAwaitFetch"
    and a1: "summary s1 = None" "toasts s1 = toasts s"
    using assms(1) by (simp_all add: s1_def handleProcess_def)
  have t2: "?tid < length (tasks s2) \<and> tasks s2 ! ?tid = ProcAwaitFetch"
    using t1 stream_run_task_at [OF assms(2), of ?tid s1 v] by (simp add: s2_def)
  have a2: "summary s2 = None" "toasts s2 = toasts s"
    using a1 stream_run_frame [OF assms(2), of v s1] by (simp_all add: s2_def)
  have t3: "?tid < length (tasks s3) \<and> tasks s3 ! ?tid = ProcAwaitJson"
    and a3: "summary s3 = None" "toasts s3 = toasts s"
    using t2 a2 by (simp_all add: s3_def proc_fetch_ok set_task_def)
  have t4: "?tid < length (tasks s4) \<and> tasks s4 ! ?tid = ProcAwaitJson"
    using t3 stream_run_task_at [OF assms(3), of ?tid s3 v] by (simp add: s4_def)
  have a4: "summary s4 = None" "toasts s4 = toasts s"
    using a3 stream_run_frame [OF assms(3), of v s3] by (simp_all add: s4_def)
  have fr: "summary s6 = summary s5" "toasts s6 = toasts s5" "processing s6 = processing s5"
    using stream_run_frame [OF assms(4), of v s5] by (simp_all add: s6_def)
  show ?thesis
  proof (cases "get_prop d ''processed''")
    case None
    then have "get_prop d ''total'' = None" by (simp add: get_prop_None)
    moreover have "s5 = handleProcess_catch ?tid s4"
      using t4 None by (simp add: s5_def proc_json_unreadable)
    ultimately have "summary s6 = None \<and> toasts s6 = toasts s @ [ProcessErrorToast]
        \<and> \<not> processing s6"
      using a4 fr by (simp add: handleProcess_catch_def set_task_def add_toast_def)
    with None show ?thesis
      unfolding s6 Let_def by simp
  next
    case (Some p')
    then have "get_prop d ''total'' \<noteq> None"
      using get_prop_None [of d "''processed''"] get_prop_None [of d "''total''"] by auto
    then obtain t' where t': "get_prop d ''total'' = Some t'" by blast
    have "s5 = set_task ?tid Finished
             ((add_toast (ProcessingCompleteToast p') s4)
                \<lparr>summary := Some \<lparr>processed = js_or p' (JNum 0), total_files = js_or t' (JNum 0)\<rparr>,
                 processing := False\<rparr>)"
      using t4 Some t' by (simp add: s5_def proc_json_body)
    then have "summary s6 = Some \<lparr>processed = js_or p' (JNum 0),
                                    total_files = js_or t' (JNum 0)\<rparr> \<and> \<not> processing s6"
      using fr by (simp add: set_task_def add_toast_def)
    with Some t' show ?thesis
      unfolding s6 Let_def by (auto simp: js_or_num)
  qed
qed

text \<open>
  The stream reaches 100 and closes before the body arrives; the body is
  \<^verbatim>\<open>{"processed": 7, "total": 10}\<close>, then \<^verbatim>\<open>{"processed": 7}\<close>, then \<^verbatim>\<open>null\<close>.
\<close>

theorem C1_summary_from_response_witness:
  "\<not> process_disabled ready
   \<and> list_all stream_event [] \<and> list_all stream_event [progress_msg 0 100]
   \<and> summary (run Plain ready
        [ClickProcess, FetchSettled 1 (Response True), progress_msg 0 100,
         JsonSettled 1 (Body (JObj [(''processed'', JNum 7), (''total'', JNum 10)]))])
      = Some \<lparr>processed = JNum 7, total_files = JNum 10\<rparr>
   \<and> summary (run Plain ready
        [ClickProcess, FetchSettled 1 (Response True), progress_msg 0 100,
         JsonSettled 1 (Body (JObj [(''processed'', JNum 7)]))])
      = Some \<lparr>processed = JNum 7, total_files = JNum 0\<rparr>
   \<and> get_prop JNull ''processed'' = None
   \<and> toasts (run Plain ready
        [ClickProcess, FetchSettled 1 (Response True), progress_msg 0 100,
         JsonSettled 1 (Body JNull)])
      = toasts ready @ [ProcessErrorToast]"
  using C1_summary_from_response [of ready "[]" "[progress_msg 0 100]" "[]" Plain
          "JObj [(''processed'', JNum 7), (''total'', JNum 10)]" 7 10]
    C1_summary_from_response [of ready "[]" "[progress_msg 0 100]" "[]" Plain
          "JObj [(''processed'', JNum 7)]" 7 0]
    C1_summary_from_response [of ready "[]" "[progress_msg 0 100]" "[]" Plain JNull 0 0]
  by (simp add: ready_eq process_disabled_def progress_msg_def js_or_def Let_def)

text \<open>
  C5. A run is started from a state in which the process button is enabled, and its
  \<^verbatim>\<open>fetch\<close> is rejected or answered with a response that is not ok. Whatever stream
  events arrive before and after that, the summary is absent in every state from
  the click on, and the processing flag is false when the handler has completed
  and stays false afterwards.
\<close>

theorem C5_failed_start:
  assumes "\<not> process_disabled s"
    and "list_all stream_event pre"
    and "list_all stream_event post"
    and "r \<noteq> Response True"
  shows "list_all (\<lambda>s'. summary s' = None)
           (visited v s (ClickProcess # pre @ [FetchSettled (length (tasks s)) r] @ post))
       \<and> \<not> processing (run v s (ClickProcess # pre @ [FetchSettled (length (tasks s)) r]))
       \<and> \<not> processing (run v s (ClickProcess # pre
              @ [FetchSettled (length (tasks s)) r] @ post))"
proof -
  let ?tid = "length (tasks s)"
  define s1 where "s1 = step v s ClickProcess"
  define s2 where "s2 = run v s1 pre"
  define s3 where "s3 = step v s2 (FetchSettled ?tid r)"
  have s1: "summary s1 = None"
    and t1: "?tid < length (tasks s1) \<and> tasks s1 ! ?tid = ProcAwaitFetch"
    using assms(1) by (simp_all add: s1_def handleProcess_def)
  have v2: "list_all (\<lambda>s'. summary s' = None) (visited v s1 pre)"
    using stream_visited_frame [OF assms(2), of s1 v] s1 by (simp add: list_all_iff)
  have s2: "summary s2 = None"
    using stream_run_frame [OF assms(2), of v s1] s1 by (simp add: s2_def)
  have t2: "?tid < length (tasks s2) \<and> tasks s2 ! ?tid = ProcAwaitFetch"
    using stream_run_task_at [OF assms(2), of ?tid s1 v] t1 by (simp add: s2_def)
  then have s3_eq: "s3 = handleProcess_catch ?tid s2"
    using assms(4) by (simp add: s3_def proc_fetch_fail)
  then have s3: "summary s3 = None" and p3: "\<not> processing s3"
    using s2 by (simp_all add: handleProcess_catch_def set_task_def add_toast_def)
  have v4: "list_all (\<lambda>s'. summary s' = None) (visited v s3 post)"
    using stream_visited_frame [OF assms(3), of s3 v] s3 by (simp add: list_all_iff)
  have p4: "\<not> processing (run v s3 post)"
    using stream_run_frame [OF assms(3), of v s3] p3 by simp
  have vis: "visited v s (ClickProcess # pre @ [FetchSettled ?tid r] @ post)
              = s1 # visited v s1 pre @ s3 # visited v s3 post"
    by (simp add: visited_append s1_def s2_def s3_def)
  have "list_all (\<lambda>s'. summary s' = None)
          (visited v s (ClickProcess # pre @ [FetchSettled ?tid r] @ post))"
    unfolding vis using s1 v2 s3 v4 by simp
  moreover have "\<not> processing (run v s (ClickProcess # pre @ [FetchSettled ?tid r]))"
    using p3 by (simp add: run_append s1_def s2_def s3_def)
  moreover have "\<not> processing (run v s (ClickProcess # pre @ [FetchSettled ?tid r] @ post))"
    using p4 by (simp add: run_append s1_def s2_def s3_def)
  ultimately show ?thesis by blast
qed

text \<open>
  A second run, started while the summary 7 / 10 of the first is shown and the first
  run's stream is still open: the response is not ok.
\<close>

theorem C5_failed_start_witness:
  "\<not> process_disabled after_run
   \<and> list_all stream_event [progress_msg 0 40] \<and> list_all stream_event [progress_msg 0 100]
   \<and> Response False \<noteq> Response True
   \<and> map summary (visited Plain after_run
        [ClickProcess, progress_msg 0 40, FetchSettled 2 (Response False), progress_msg 0 100])
       = [None, None, None, None]
   \<and> \<not> processing (run Plain after_run
        [ClickProcess, progress_msg 0 40, FetchSettled 2 (Response False)])
   \<and> \<not> processing (run Plain after_run
        [ClickProcess, progress_msg 0 40, FetchSettled 2 (Response False), progress_msg 0 100])"
  using C5_failed_start [of after_run "[progress_msg 0 40]" "[progress_msg 0 100]"
          "Response False" Plain]
  by (simp add: after_run_eq process_disabled_def progress_msg_def handler_defs is_open_def)

section \<open>The progress value\<close>

text \<open>
  The value in state after a regression (50, then 30) is 30 where the maximum is
  50, and after an out-of-range value (150) it is 150 where the clamped value is
  100.
\<close>

theorem C2_counterexample:
  "progress (run Plain streaming [progress_msg 0 50, progress_msg 0 30]) = JNum 30
   \<and> spec_progress [50, 30] = 50
   \<and> progress (run Plain streaming [progress_msg 0 50, progress_msg 0 30])
       \<noteq> JNum (spec_progress [50, 30])
   \<and> progress (run Plain streaming [progress_msg 0 150]) = JNum 150
   \<and> spec_progress [150] = 100
   \<and> progress (run Plain streaming [progress_msg 0 150]) \<noteq> JNum (spec_progress [150])"
  by (simp add: streaming_eq progress_msg_def spec_progress_def handler_defs is_open_def)

text \<open>
  C2, as the component has it. A progress message delivered on an open stream
  stores its value as sent: after it the progress held in state is that value,
  whatever was held before. Hence after any non-empty sequence of messages received
  on the stream (none before the last is 100, since the stream closes itself on
  100 and receives nothing after), the progress is the value of the last message:
  neither the maximum so far nor a value clamped to the interval from 0 to 100.
\<close>

theorem C2_progress_is_latest:
  assumes "cid < length (channels s)" and "is_open (channels s ! cid)"
  shows "progress (step v s (progress_msg cid n)) = JNum n
       \<and> (ns \<noteq> [] \<and> 100 \<notin> set (butlast ns) \<longrightarrow>
            progress (run v s (map (progress_msg cid) ns)) = JNum (last ns))"
  using progress_msg_progress [OF assms] progress_msgs_latest [OF assms]
  by blast

theorem C2_progress_is_latest_witness:
  "0 < length (channels streaming) \<and> is_open (channels streaming ! 0)
   \<and> [20, 150, 30] \<noteq> ([] :: int list) \<and> 100 \<notin> set (butlast [20, 150, 30 :: int])
   \<and> progress (step Plain streaming (progress_msg 0 (- 5))) = JNum (- 5)
   \<and> progress (run Plain streaming [progress_msg 0 20, progress_msg 0 150, progress_msg 0 30])
       = JNum 30"
  using C2_progress_is_latest [of 0 streaming Plain "- 5" "[20, 150, 30]"]
  by (simp add: streaming_eq is_open_def)

section \<open>The stream channel\<close>

text \<open>
  After the click the request has been sent and no channel exists; when the
  response is not ok, or the \<^verbatim>\<open>fetch\<close> is rejected, none is ever created.
\<close>

theorem C3_counterexample:
  "issued (step Plain ready ClickProcess) = [SelectFolderEP, ProcessEP]
   \<and> channels (step Plain ready ClickProcess) = []
   \<and> channels (run Plain ready [ClickProcess, FetchSettled 1 (Response False)]) = []
   \<and> channels (run Plain ready [ClickProcess, FetchSettled 1 Rejected]) = []"
  by (simp add: ready_eq handler_defs)

text \<open>
  C3, as the component has it. Starting a run sends the process request and
  leaves the channels as they are. The number of channels changes in exactly one
  kind of step: the arrival of an ok response at a \<^verbatim>\<open>handleProcess\<close> instance that
  awaits its \<^verbatim>\<open>fetch\<close>. That step creates one open channel and leaves the handler
  awaiting the body: the channel is opened after the response has arrived and
  been found ok, and before the body is read.
\<close>

theorem C3_channel_after_ok_response:
  "(\<not> process_disabled s \<longrightarrow>
        issued (step v s ClickProcess) = issued s @ [ProcessEP]
      \<and> tasks (step v s ClickProcess) = tasks s @ [ProcAwaitFetch]
      \<and> channels (step v s ClickProcess) = channels s)
   \<and> ((length (channels (step v s e)) \<noteq> length (channels s))
        = (\<exists>tid. e = FetchSettled tid (Response True) \<and> tid < length (tasks s)
             \<and> tasks s ! tid = ProcAwaitFetch))
   \<and> (tid < length (tasks s) \<and> tasks s ! tid = ProcAwaitFetch \<longrightarrow>
        step v s (FetchSettled tid (Response True))
          = s\<lparr>tasks := (tasks s)[tid := ProcAwaitJson],
               channels := channels s @ [\<lparr>opened_by = tid, close_calls = 0\<rparr>],
               issued := issued s @ [ProgressEP]\<rparr>)"
  using channels_grow_only_on_ok [of v s e] proc_fetch_ok [of tid s v]
  by (simp add: handleProcess_def set_task_def)

theorem C3_channel_after_ok_response_witness:
  "\<not> process_disabled ready
   \<and> channels (step Plain ready ClickProcess) = channels ready
   \<and> issued (step Plain ready ClickProcess) = issued ready @ [ProcessEP]
   \<and> 1 < length (tasks (step Plain ready ClickProcess))
   \<and> tasks (step Plain ready ClickProcess) ! 1 = ProcAwaitFetch
   \<and> channels (step Plain (step Plain ready ClickProcess) (FetchSettled 1 (Response True)))
       = [\<lparr>opened_by = 1, close_calls = 0\<rparr>]"
  using C3_channel_after_ok_response [of ready Plain ClickProcess 0]
    C3_channel_after_ok_response [of "step Plain ready ClickProcess" Plain ClickProcess 1]
  by (simp add: ready_eq handler_defs)

text \<open>
  A first run ends with its stream still open (no 100 was sent). The second run's
  ok response opens a second stream: two channels are open during the second run.
\<close>

theorem C4_counterexample:
  "processing (run Plain after_run [ClickProcess, FetchSettled 2 (Response True)])
   \<and> channels (run Plain after_run [ClickProcess, FetchSettled 2 (Response True)])
       = [\<lparr>opened_by = 1, close_calls = 0\<rparr>, \<lparr>opened_by = 2, close_calls = 0\<rparr>]
   \<and> length (filter is_open
        (channels (run Plain after_run [ClickProcess, FetchSettled 2 (Response True)]))) = 2"
  by (simp add: after_run_eq handler_defs is_open_def)

text \<open>
  C4, as the component has it. In every state reached from the mounted
  component, no two channels were created by the same \<^verbatim>\<open>handleProcess\<close> instance
  and at most one instance is in flight: a run opens at most one channel, and
  runs do not overlap. Starting a run leaves every channel as it is, open ones
  included. A channel changes only while it is open, and only by a transport
  error on it or a message on it whose progress is 100.
\<close>

theorem C4_one_channel_per_run:
  "distinct (map opened_by (channels (run v (mount v) es)))
   \<and> length (filter active (tasks (run v (mount v) es))) \<le> 1
   \<and> channels (step v s ClickProcess) = channels s
   \<and> (cid < length (channels s) \<and> channels (step v s e) ! cid \<noteq> channels s ! cid \<longrightarrow>
        is_open (channels s ! cid)
      \<and> (e = StreamError cid
          \<or> (\<exists>d. e = StreamMessage cid (Some d)
                \<and> get_prop d ''progress'' = Some (JNum 100))))"
proof -
  from invariants_mount [of v] invariants_run [of "mount v" v es]
  have "one_run (run v (mount v) es)" and "owners_ok (run v (mount v) es)" by simp_all
  then have "distinct (map opened_by (channels (run v (mount v) es)))"
    and "length (filter active (tasks (run v (mount v) es))) \<le> 1"
    by (simp_all add: owners_ok_def owners_def one_run_def)
  moreover have "channels (step v s ClickProcess) = channels s"
    by (simp add: handleProcess_def)
  ultimately show ?thesis
    using channel_changed_by [of cid s v e] by blast
qed

theorem C4_one_channel_per_run_witness:
  "0 < length (channels after_run)
   \<and> channels (step Plain after_run (StreamError 0)) ! 0 \<noteq> channels after_run ! 0
   \<and> is_open (channels after_run ! 0)
   \<and> channels (step Plain after_run ClickProcess) = channels after_run
   \<and> distinct (map opened_by (channels (run Plain (mount Plain)
        [ClickSelectFolder, FetchSettled 0 (Response True),
         JsonSettled 0 (Body (JObj [(''success'', JBool True)])),
         ClickProcess, FetchSettled 1 (Response True)])))"
  using C4_one_channel_per_run [of Plain
      "[ClickSelectFolder, FetchSettled 0 (Response True),
        JsonSettled 0 (Body (JObj [(''success'', JBool True)])),
        ClickProcess, FetchSettled 1 (Response True)]" after_run 0 "StreamError 0"]
  by (simp add: after_run_eq handler_defs is_open_def)

text \<open>
  The values 99 and then 101 are received: the progress held is 101, and
  \<^verbatim>\<open>close()\<close> has not been called on the stream.
\<close>

theorem C6_counterexample:
  "progress (run Plain streaming [progress_msg 0 99, progress_msg 0 101]) = JNum 101
   \<and> is_open (channels (run Plain streaming [progress_msg 0 99, progress_msg 0 101]) ! 0)
   \<and> close_calls (channels (run Plain streaming [progress_msg 0 99, progress_msg 0 101]) ! 0) = 0"
  by (simp add: streaming_eq progress_msg_def handler_defs is_open_def)

text \<open>
  C6, as the component has it. When a message whose progress is exactly 100 is
  delivered on an open stream, \<^verbatim>\<open>close()\<close> is called on that stream once, and after
  any further events the number of calls is still one: it is neither closed twice
  nor left open. A message with any other progress value, a value above 100
  included, leaves every channel as it was.
\<close>

theorem C6_closes_on_exact_100:
  assumes "cid < length (channels s)" and "is_open (channels s ! cid)"
    and "get_prop d ''progress'' = Some p"
  shows "(p = JNum 100 \<longrightarrow>
            close_calls (channels (run v (step v s (StreamMessage cid (Some d))) es) ! cid) = 1)
       \<and> (p \<noteq> JNum 100 \<longrightarrow> channels (step v s (StreamMessage cid (Some d))) = channels s)"
proof (intro conjI impI)
  assume p: "p = JNum 100"
  let ?s' = "step v s (StreamMessage cid (Some d))"
  have len: "cid < length (channels ?s')" and c1: "close_calls (channels ?s' ! cid) = 1"
    using assms p
    by (cases v; simp add: onmessage_def close_channel_def fetchReceipts_def is_open_def)+
  then have "\<not> is_open (channels ?s' ! cid)" by (simp add: is_open_def)
  from closed_channel_run [OF len this, of v es] c1
  show "close_calls (channels (run v ?s' es) ! cid) = 1" by simp
next
  assume "p \<noteq> JNum 100"
  with assms show "channels (step v s (StreamMessage cid (Some d))) = channels s"
    by (simp add: onmessage_def)
qed

theorem C6_closes_on_exact_100_witness:
  "0 < length (channels streaming) \<and> is_open (channels streaming ! 0)
   \<and> get_prop (JObj [(''progress'', JNum 100)]) ''progress'' = Some (JNum 100)
   \<and> close_calls (channels (run Plain (step Plain streaming (progress_msg 0 100))
        [progress_msg 0 100, StreamError 0,
         JsonSettled 1 (Body (JObj [(''processed'', JNum 7), (''total'', JNum 10)]))]) ! 0) = 1
   \<and> get_prop (JObj [(''progress'', JNum 101)]) ''progress'' = Some (JNum 101)
   \<and> JNum 101 \<noteq> JNum 100
   \<and> channels (step Plain streaming (progress_msg 0 101)) = channels streaming"
  using C6_closes_on_exact_100 [of 0 streaming "JObj [(''progress'', JNum 100)]" "JNum 100" Plain
      "[progress_msg 0 100, StreamError 0,
        JsonSettled 1 (Body (JObj [(''processed'', JNum 7), (''total'', JNum 10)]))]"]
    C6_closes_on_exact_100 [of 0 streaming "JObj [(''progress'', JNum 101)]" "JNum 101" Plain "[]"]
  by (simp add: streaming_eq is_open_def progress_msg_def)

section \<open>What a stream event may change\<close>

text \<open>
  C7. A stream event (a message, the one carrying 100 included, or a transport
  error) leaves the processing flag and the summary as they are; the state after
  it differs from the state before at most in the progress value and the channels,
  whose creators stay the same, so that only their open or closed status can
  change. In the plain component nothing else changes at all; in the list version
  the 100 message also sends the request that refreshes the receipts. The
  processing flag goes from true to false only in a step in which the \<^verbatim>\<open>fetch\<close> of a
  \<^verbatim>\<open>handleProcess\<close> instance fails, or in which the body of its response settles.
\<close>

theorem C7_stream_frame:
  "(stream_event e \<longrightarrow>
       processing (step v s e) = processing s \<and> summary (step v s e) = summary s
     \<and> step v s e = s\<lparr>progress := progress (step v s e), channels := channels (step v s e),
                       tasks := tasks (step v s e), issued := issued (step v s e)\<rparr>
     \<and> map opened_by (channels (step v s e)) = map opened_by (channels s)
     \<and> (v = Plain \<longrightarrow> tasks (step v s e) = tasks s \<and> issued (step v s e) = issued s))
   \<and> (processing s \<and> \<not> processing (step v s e) \<longrightarrow>
         (\<exists>tid r. e = FetchSettled tid r \<and> tid < length (tasks s)
             \<and> tasks s ! tid = ProcAwaitFetch \<and> r \<noteq> Response True)
       \<or> (\<exists>tid j. e = JsonSettled tid j \<and> tid < length (tasks s)
             \<and> tasks s ! tid = ProcAwaitJson))"
  using stream_step_frame(1,2) [of e v s] stream_step_only [of e v s]
    owners_stream [of e v s] processing_cleared_by [of s v e]
  unfolding owners_def
  by blast

theorem C7_stream_frame_witness:
  "stream_event (progress_msg 0 100)
   \<and> processing (step Plain streaming (progress_msg 0 100)) = processing streaming
   \<and> summary (step Plain streaming (progress_msg 0 100)) = summary streaming
   \<and> tasks (step Plain streaming (progress_msg 0 100)) = tasks streaming
   \<and> processing streaming
   \<and> \<not> processing (step Plain streaming (JsonSettled 1 (Body (JObj []))))
   \<and> tasks streaming ! 1 = ProcAwaitJson"
  using C7_stream_frame [of "progress_msg 0 100" Plain streaming]
    C7_stream_frame [of "JsonSettled 1 (Body (JObj []))" Plain streaming]
  by (simp add: streaming_eq progress_msg_def handler_defs is_open_def)

section \<open>The gate on the process button\<close>

text \<open>
  C8. When the folder-selected flag is false or a run is in progress, the process
  button is rendered disabled, a click on it changes nothing, and no event of any
  kind adds a process request to the requests sent.
\<close>

theorem C8_trigger_gated:
  assumes "processing s \<or> \<not> folderSelected s"
  shows "process_disabled s \<and> step v s ClickProcess = s
       \<and> filter (\<lambda>x. x = ProcessEP) (issued (step v s e)) = filter (\<lambda>x. x = ProcessEP) (issued s)"
proof -
  have d: "process_disabled s" using assms by (simp add: process_disabled_def)
  have "filter (\<lambda>x. x = ProcessEP) (issued (step v s e)) = filter (\<lambda>x. x = ProcessEP) (issued s)"
    using d by (cases e) (auto simp: handler_defs split: all_splits)
  with d show ?thesis by simp
qed

theorem C8_trigger_gated_witness:
  "(processing initial \<or> \<not> folderSelected initial)
   \<and> process_disabled initial \<and> step Plain initial ClickProcess = initial
   \<and> (processing streaming \<or> \<not> folderSelected streaming)
   \<and> process_disabled streaming \<and> step Plain streaming ClickProcess = streaming
   \<and> issued (step Plain streaming ClickProcess) = [SelectFolderEP, ProcessEP, ProgressEP]"
  using C8_trigger_gated [of initial Plain ClickProcess]
    C8_trigger_gated [of streaming Plain ClickProcess]
  by (simp add: initial_def streaming_eq)

text \<open>
  C9. The folder-selected flag is false when the component is mounted. Once true
  it is true after every sequence of events. It goes from false to true only in a
  step in which the body of a folder-selection response settles with a truthy
  \<^verbatim>\<open>success\<close>. So once a folder is selected, the process button is enabled in every
  later state in which no run is in progress.
\<close>

theorem C9_folderSelected_monotone:
  "\<not> folderSelected (mount v)
   \<and> (folderSelected s \<longrightarrow> folderSelected (run v s es))
   \<and> (\<not> folderSelected s \<and> folderSelected (step v s e) \<longrightarrow>
        (\<exists>tid d b. e = JsonSettled tid (Body d) \<and> tid < length (tasks s)
           \<and> tasks s ! tid = SelAwaitJson \<and> get_prop d ''success'' = Some b \<and> truthy b))
   \<and> (folderSelected s \<and> \<not> processing (run v s es) \<longrightarrow> \<not> process_disabled (run v s es))"
proof -
  have "\<not> folderSelected (mount v)"
    by (cases v) (simp_all add: mount_def initial_def fetchReceipts_def)
  moreover have "folderSelected s \<and> \<not> processing (run v s es) \<longrightarrow> \<not> process_disabled (run v s es)"
    using folderSelected_run [of s v es] by (simp add: process_disabled_def)
  ultimately show ?thesis
    using folderSelected_run [of s v es] folderSelected_set_by [of s v e] by blast
qed

text \<open>
  A selected folder survives a failed run and a successful one; the flag was set
  by the body \<^verbatim>\<open>{"success": true}\<close>.
\<close>

theorem C9_folderSelected_monotone_witness:
  "folderSelected ready
   \<and> folderSelected (run Plain ready
        [ClickProcess, FetchSettled 1 (Response False), ClickProcess,
         FetchSettled 2 (Response True), JsonSettled 2 (Body (JObj []))])
   \<and> \<not> processing (run Plain ready
        [ClickProcess, FetchSettled 1 (Response False), ClickProcess,
         FetchSettled 2 (Response True), JsonSettled 2 (Body (JObj []))])
   \<and> \<not> process_disabled (run Plain ready
        [ClickProcess, FetchSettled 1 (Response False), ClickProcess,
         FetchSettled 2 (Response True), JsonSettled 2 (Body (JObj []))])
   \<and> \<not> folderSelected selecting
   \<and> folderSelected (step Plain selecting
        (JsonSettled 0 (Body (JObj [(''success'', JBool True)]))))
   \<and> tasks selecting ! 0 = SelAwaitJson"
  using C9_folderSelected_monotone [of Plain ready
      "[ClickProcess, FetchSettled 1 (Response False), ClickProcess,
        FetchSettled 2 (Response True), JsonSettled 2 (Body (JObj []))]"
      "JsonSettled 0 (Body (JObj [(''success'', JBool True)]))"]
    C9_folderSelected_monotone [of Plain selecting "[]"
      "JsonSettled 0 (Body (JObj [(''success'', JBool True)]))"]
  by (simp add: ready_eq selecting_eq handler_defs)

section \<open>A folder selection that reports no success\<close>

text \<open>
  An ok response whose body does not parse, or parses to \<^verbatim>\<open>null\<close>, raises the error
  notification although the \<^verbatim>\<open>fetch\<close> was not rejected and the response was ok.
\<close>

theorem C10_counterexample:
  "toasts (run Plain initial
      [ClickSelectFolder, FetchSettled 0 (Response True), JsonSettled 0 ParseError])
     = [SelectErrorToast]
   \<and> toasts (run Plain initial
      [ClickSelectFolder, FetchSettled 0 (Response True), JsonSettled 0 (Body JNull)])
     = [SelectErrorToast]"
  by (simp add: initial_def handler_defs)

text \<open>
  C10, as the component has it. When the folder-selection response is ok and its
  body is an object whose \<^verbatim>\<open>success\<close> is \<^verbatim>\<open>false\<close>, the handler ends without doing
  anything: the state after the step is the state before it, with only the handler
  instance marked as finished. The folder-selected flag, the notifications, the
  requests sent and every other field are unchanged; in particular no error
  notification is raised. The notifications after the \<^verbatim>\<open>fetch\<close> of a folder selection
  settles are those before it when the response is ok, and those before it
  followed by the error notification otherwise. A step raises the folder-selection
  error notification in exactly three cases: the \<^verbatim>\<open>fetch\<close> of a folder selection is
  rejected, its response is not ok, or its response is ok and the body does not
  parse or parses to \<^verbatim>\<open>null\<close>.
\<close>

theorem C10_silent_and_error_path:
  assumes "tid < length (tasks s)"
    and "get_prop d ''success'' = Some (JBool False)"
  shows "(tasks s ! tid = SelAwaitJson \<longrightarrow>
            step v s (JsonSettled tid (Body d)) = s\<lparr>tasks := (tasks s)[tid := Finished]\<rparr>)
       \<and> (tasks s ! tid = SelAwaitFetch \<longrightarrow>
            toasts (step v s (FetchSettled tid r))
              = (if r = Response True then toasts s else toasts s @ [SelectErrorToast]))
       \<and> ((toasts (step v s e) = toasts s @ [SelectErrorToast])
            = ((\<exists>tid r. e = FetchSettled tid r \<and> tid < length (tasks s)
                   \<and> tasks s ! tid = SelAwaitFetch \<and> r \<noteq> Response True)
               \<or> (\<exists>tid j. e = JsonSettled tid j \<and> tid < length (tasks s)
                   \<and> tasks s ! tid = SelAwaitJson
                   \<and> (j = ParseError \<or> (\<exists>d. j = Body d \<and> get_prop d ''success'' = None)))))"
proof -
  have "tasks s ! tid = SelAwaitJson \<longrightarrow>
          step v s (JsonSettled tid (Body d)) = s\<lparr>tasks := (tasks s)[tid := Finished]\<rparr>"
    using assms by (simp add: json_settled_def handleFolderSelect_json_def set_task_def)
  moreover have "tasks s ! tid = SelAwaitFetch \<longrightarrow>
          toasts (step v s (FetchSettled tid r))
            = (if r = Response True then toasts s else toasts s @ [SelectErrorToast])"
    using assms(1)
    by (cases r)
       (simp_all add: fetch_settled_def handleFolderSelect_response_def
          handleFolderSelect_catch_def set_task_def add_toast_def)
  ultimately show ?thesis
    using select_error_only_by [of v s e] by blast
qed

theorem C10_silent_and_error_path_witness:
  "0 < length (tasks selecting)
   \<and> get_prop (JObj [(''success'', JBool False)]) ''success'' = Some (JBool False)
   \<and> tasks selecting ! 0 = SelAwaitJson
   \<and> step Plain selecting (JsonSettled 0 (Body (JObj [(''success'', JBool False)])))
       = selecting\<lparr>tasks := [Finished]\<rparr>
   \<and> tasks (step Plain initial ClickSelectFolder) ! 0 = SelAwaitFetch
   \<and> toasts (step Plain (step Plain initial ClickSelectFolder) (FetchSettled 0 (Response False)))
       = [SelectErrorToast]
   \<and> toasts (step Plain selecting (JsonSettled 0 ParseError)) = toasts selecting @ [SelectErrorToast]"
  using C10_silent_and_error_path [of 0 selecting "JObj [(''success'', JBool False)]" Plain
      Rejected "JsonSettled 0 ParseError"]
    C10_silent_and_error_path [of 0 "step Plain initial ClickSelectFolder"
      "JObj [(''success'', JBool False)]" Plain "Response False" ClickProcess]
  by (simp add: selecting_eq initial_def handler_defs)

end
